theory Spec2Isabelle
  imports Main "HOL-Library.AList"
begin

section \<open>Python values: exceptions and dictionaries\<close>

text \<open>
  Vertex and face keys are the integer keys the mesh hands out, counted from 0.
  An edge is a pair of vertex keys. A raised Python exception is the left summand
  of a result; a Python dictionary is an association list in iteration order
  (keys distinct), so that every iteration order of a dictionary is some model.
\<close>

type_synonym vkey = nat
type_synonym fkey = nat
type_synonym edge = "vkey \<times> vkey"

datatype error = KeyError | ValueError | IndexError | UnboundLocalError | AttributeError

definition rbind :: "error + 'a \<Rightarrow> ('a \<Rightarrow> error + 'b) \<Rightarrow> error + 'b" where
  "rbind r f = (case r of Inl e \<Rightarrow> Inl e | Inr x \<Rightarrow> f x)"

text \<open>\<^verbatim>\<open>d[k]\<close>: KeyError when the key is absent.\<close>

definition getitem :: "('k \<times> 'v) list \<Rightarrow> 'k \<Rightarrow> error + 'v" where
  "getitem d k = (case map_of d k of None \<Rightarrow> Inl KeyError | Some v \<Rightarrow> Inr v)"

text \<open>\<^verbatim>\<open>l.index(x)\<close>: ValueError when the item is absent.\<close>

fun index_of :: "'a list \<Rightarrow> 'a \<Rightarrow> error + nat" where
  "index_of [] x = Inl ValueError"
| "index_of (y # ys) x =
     (if y = x then Inr 0
      else case index_of ys x of Inl e \<Rightarrow> Inl e | Inr i \<Rightarrow> Inr (Suc i))"

text \<open>\<^verbatim>\<open>l[i]\<close> for a Python integer: a negative index counts from the end.\<close>

definition py_nth :: "'a list \<Rightarrow> int \<Rightarrow> error + 'a" where
  "py_nth xs i =
     (if 0 \<le> i \<and> i < int (length xs) then Inr (xs ! nat i)
      else if i < 0 \<and> - int (length xs) \<le> i then Inr (xs ! nat (int (length xs) + i))
      else Inl IndexError)"

section \<open>The half-edge mesh kernel\<close>

text \<open>
  The mesh kernel is the class the repository's \<^verbatim>\<open>Mesh\<close> and \<^verbatim>\<open>QuadMesh\<close> inherit
  from; it is imported from the COMPAS library and is not part of the sources.
  The record holds its dictionaries: \<^verbatim>\<open>vertex\<close> (key to attributes, here the
  coordinate of type \<open>'c\<close>), \<^verbatim>\<open>face\<close> (key to vertex cycle), \<^verbatim>\<open>halfedge\<close>
  (\<^verbatim>\<open>halfedge[u][v]\<close> is the face left of \<open>(u, v)\<close> or \<^verbatim>\<open>None\<close>), the two key
  counters, and the strip table \<^verbatim>\<open>QuadMesh.strip\<close>.
\<close>

record 'c mesh =
  vertex :: "(vkey \<times> 'c) list"
  face :: "(fkey \<times> vkey list) list"
  halfedge :: "(vkey \<times> (vkey \<times> fkey option) list) list"
  max_int_key :: int
  max_int_fkey :: int
  strip :: "(nat \<times> edge list) list"

definition empty_mesh :: "'c mesh" where
  "empty_mesh = \<lparr> vertex = [], face = [], halfedge = [],
                  max_int_key = - 1, max_int_fkey = - 1, strip = [] \<rparr>"

text \<open>\<^verbatim>\<open>mesh.halfedge[u][v]\<close>\<close>

definition he :: "'c mesh \<Rightarrow> vkey \<Rightarrow> vkey \<Rightarrow> error + fkey option" where
  "he m u v = rbind (getitem (halfedge m) u) (\<lambda>nbrs. getitem nbrs v)"

text \<open>\<^verbatim>\<open>v in mesh.halfedge[u] and mesh.halfedge[u][v] is not None\<close>\<close>

definition has_face :: "'c mesh \<Rightarrow> vkey \<Rightarrow> vkey \<Rightarrow> error + bool" where
  "has_face m u v =
     rbind (getitem (halfedge m) u)
       (\<lambda>nbrs. Inr (case map_of nbrs v of Some (Some f) \<Rightarrow> True | _ \<Rightarrow> False))"

text \<open>
  Modelled from the spec: \<^verbatim>\<open>add_vertex(coord) -> id\<close> of the mesh kernel (COMPAS
  library, not in the sources). A fresh key is the key counter plus one; the vertex gets
  an empty neighbour dictionary.
\<close>

definition add_vertex :: "'c \<Rightarrow> 'c mesh \<Rightarrow> vkey \<times> 'c mesh" where
  "add_vertex c m =
     (let k = max_int_key m + 1; key = nat k in
      (key, if key \<in> fst ` set (vertex m)
            then m\<lparr> vertex := AList.update key c (vertex m), max_int_key := k \<rparr>
            else m\<lparr> vertex := vertex m @ [(key, c)],
                    halfedge := halfedge m @ [(key, [])], max_int_key := k \<rparr>))"

text \<open>The cyclic pairs of a face: \<^verbatim>\<open>pairwise(keys + keys[0:1])\<close>.\<close>

fun pairwise :: "'a list \<Rightarrow> ('a \<times> 'a) list" where
  "pairwise (x # y # xs) = (x, y) # pairwise (y # xs)"
| "pairwise _ = []"

definition cycle_keys :: "'a list \<Rightarrow> ('a \<times> 'a) list" where
  "cycle_keys keys = pairwise (keys @ take 1 keys)"

text \<open>\<^verbatim>\<open>halfedge[u][v] = f\<close>, for a vertex \<open>u\<close> that has its dictionary.\<close>

definition set_he :: "vkey \<Rightarrow> vkey \<Rightarrow> fkey option
    \<Rightarrow> (vkey \<times> (vkey \<times> fkey option) list) list \<Rightarrow> (vkey \<times> (vkey \<times> fkey option) list) list" where
  "set_he u v f h = AList.map_entry u (AList.update v f) h"

definition del_he :: "vkey \<Rightarrow> vkey
    \<Rightarrow> (vkey \<times> (vkey \<times> fkey option) list) list \<Rightarrow> (vkey \<times> (vkey \<times> fkey option) list) list" where
  "del_he u v h = AList.map_entry u (AList.delete v) h"

text \<open>
  Modelled from the spec: \<^verbatim>\<open>add_face(cyclic vertex ids, optional id) -> id\<close> of the
  mesh kernel (COMPAS library, not in the sources). A closing repetition of the first or
  of the last vertex is dropped, a cycle of fewer than three vertices adds nothing
  (result \<^verbatim>\<open>None\<close>); every directed pair of the cycle is mapped to the face, and the
  opposite direction to \<^verbatim>\<open>None\<close> when it has no entry yet. The callers in the
  sources only pass vertices that are keys of the mesh.
\<close>

definition trim_cycle :: "vkey list \<Rightarrow> vkey list" where
  "trim_cycle vs =
     (let vs1 = (if vs \<noteq> [] \<and> hd vs = last vs then butlast vs else vs);
          vs2 = (if 2 \<le> length vs1 \<and> last (butlast vs1) = last vs1 then butlast vs1 else vs1)
      in vs2)"

fun link_face :: "fkey \<Rightarrow> edge list
    \<Rightarrow> (vkey \<times> (vkey \<times> fkey option) list) list \<Rightarrow> (vkey \<times> (vkey \<times> fkey option) list) list" where
  "link_face f [] h = h"
| "link_face f ((u, v) # ps) h =
     (let h1 = set_he u v (Some f) h;
          h2 = (case map_of h1 v of
                  Some nbrs \<Rightarrow> (if u \<in> fst ` set nbrs then h1 else set_he v u None h1)
                | None \<Rightarrow> h1)
      in link_face f ps h2)"

definition add_face :: "vkey list \<Rightarrow> fkey option \<Rightarrow> 'c mesh \<Rightarrow> fkey option \<times> 'c mesh" where
  "add_face vs fk m =
     (let keys = trim_cycle vs in
      if length keys < 3 then (None, m)
      else
        let f = (case fk of None \<Rightarrow> nat (max_int_fkey m + 1) | Some k \<Rightarrow> k);
            mx = (case fk of None \<Rightarrow> max_int_fkey m + 1
                  | Some k \<Rightarrow> max (max_int_fkey m) (int k))
        in (Some f, m\<lparr> face := AList.update f keys (face m),
                       halfedge := link_face f (cycle_keys keys) (halfedge m),
                       max_int_fkey := mx \<rparr>))"

text \<open>
  Modelled from the spec: the bulk constructor
  \<^verbatim>\<open>from_vertices_and_faces(vertex list, face list of vertex-id lists) -> Mesh\<close>
  (COMPAS library, not in the sources): the vertices get the keys 0, 1, ... in list
  order, then the faces are added in list order.
\<close>

definition from_vertices_and_faces :: "'c list \<Rightarrow> vkey list list \<Rightarrow> 'c mesh" where
  "from_vertices_and_faces vertices faces =
     fold (\<lambda>vs m. snd (add_face vs None m)) faces
       (fold (\<lambda>c m. snd (add_vertex c m)) vertices empty_mesh)"

text \<open>
  Modelled from the spec: the queries of the mesh kernel (COMPAS library, not in the
  sources), section 4.1: \<^verbatim>\<open>vertex_neighbors\<close> (the keys of \<^verbatim>\<open>halfedge[v]\<close>),
  \<^verbatim>\<open>vertex_degree\<close>, \<^verbatim>\<open>is_vertex_on_boundary\<close> (some outgoing half-edge has no
  face), \<^verbatim>\<open>is_edge_on_boundary\<close>, \<^verbatim>\<open>face_vertex_descendant\<close> (the next vertex of
  the face cycle), \<^verbatim>\<open>is_quadmesh\<close>, \<^verbatim>\<open>edges\<close> (every undirected edge once, in the
  direction met first) and the counts.
\<close>

definition vertex_neighbors :: "'c mesh \<Rightarrow> vkey \<Rightarrow> error + vkey list" where
  "vertex_neighbors m v = rbind (getitem (halfedge m) v) (\<lambda>nbrs. Inr (map fst nbrs))"

definition vertex_degree :: "'c mesh \<Rightarrow> vkey \<Rightarrow> error + nat" where
  "vertex_degree m v = rbind (vertex_neighbors m v) (\<lambda>ns. Inr (length ns))"

definition is_vertex_on_boundary :: "'c mesh \<Rightarrow> vkey \<Rightarrow> error + bool" where
  "is_vertex_on_boundary m v =
     rbind (getitem (halfedge m) v) (\<lambda>nbrs. Inr (list_ex (\<lambda>p. snd p = None) nbrs))"

definition is_edge_on_boundary :: "'c mesh \<Rightarrow> vkey \<Rightarrow> vkey \<Rightarrow> error + bool" where
  "is_edge_on_boundary m u v =
     rbind (he m v u) (\<lambda>f. if f = None then Inr True
                            else rbind (he m u v) (\<lambda>g. Inr (g = None)))"

definition face_vertex_descendant :: "'c mesh \<Rightarrow> fkey option \<Rightarrow> vkey \<Rightarrow> error + vkey" where
  "face_vertex_descendant m fk v =
     (case fk of None \<Rightarrow> Inl KeyError
      | Some f \<Rightarrow> rbind (getitem (face m) f)
          (\<lambda>vs. if vs = [] then Inl IndexError
                else if last vs = v then Inr (hd vs)
                else rbind (index_of vs v) (\<lambda>i. py_nth vs (int i + 1))))"

definition is_quadmesh :: "'c mesh \<Rightarrow> bool" where
  "is_quadmesh m = list_all (\<lambda>p. length (snd p) = 4) (face m)"

definition halfedge_pairs :: "'c mesh \<Rightarrow> edge list" where
  "halfedge_pairs m = concat (map (\<lambda>(u, nbrs). map (\<lambda>p. (u, fst p)) nbrs) (halfedge m))"

fun edges_seen :: "edge list \<Rightarrow> edge list \<Rightarrow> edge list" where
  "edges_seen seen [] = []"
| "edges_seen seen ((u, v) # ps) =
     (if (u, v) \<in> set seen \<or> (v, u) \<in> set seen then edges_seen seen ps
      else (u, v) # edges_seen ((u, v) # (v, u) # seen) ps)"

definition edges :: "'c mesh \<Rightarrow> edge list" where
  "edges m = edges_seen [] (halfedge_pairs m)"

definition number_of_edges :: "'c mesh \<Rightarrow> nat" where
  "number_of_edges m = length (edges m)"

definition number_of_vertices :: "'c mesh \<Rightarrow> nat" where
  "number_of_vertices m = length (vertex m)"

section \<open>QuadMesh: singularities\<close>

text \<open>\<^verbatim>\<open>QuadMesh.is_vertex_singular\<close>\<close>

definition is_vertex_singular :: "'c mesh \<Rightarrow> vkey \<Rightarrow> error + bool" where
  "is_vertex_singular m vkey =
     rbind (is_vertex_on_boundary m vkey) (\<lambda>b.
     rbind (vertex_degree m vkey) (\<lambda>d.
       Inr ((b \<and> d \<noteq> 3) \<or> (\<not> b \<and> d \<noteq> 4))))"

section \<open>QuadMesh: strips\<close>

text \<open>\<^verbatim>\<open>QuadMesh.not_none_edges\<close>: the edges, each turned to the side that has a face.\<close>

fun not_none_edges_of :: "'c mesh \<Rightarrow> edge list \<Rightarrow> error + edge list" where
  "not_none_edges_of m [] = Inr []"
| "not_none_edges_of m ((u, v) # ps) =
     (case has_face m u v of Inl e \<Rightarrow> Inl e
      | Inr b \<Rightarrow> (case not_none_edges_of m ps of Inl e \<Rightarrow> Inl e
                  | Inr es \<Rightarrow> Inr ((if b then (u, v) else (v, u)) # es)))"

definition not_none_edges :: "'c mesh \<Rightarrow> error + edge list" where
  "not_none_edges m = not_none_edges_of m (edges m)"

text \<open>\<^verbatim>\<open>QuadMesh.face_opposite_edge\<close>\<close>

definition face_opposite_edge :: "'c mesh \<Rightarrow> vkey \<Rightarrow> vkey \<Rightarrow> error + edge" where
  "face_opposite_edge m u v =
     rbind (he m u v) (\<lambda>fk.
     rbind (face_vertex_descendant m fk v) (\<lambda>w.
     rbind (face_vertex_descendant m fk w) (\<lambda>x. Inr (w, x))))"

definition flip_edges :: "edge list \<Rightarrow> edge list" where
  "flip_edges es = map (\<lambda>(u, v). (v, u)) (rev es)"

text \<open>
  The loop of \<^verbatim>\<open>QuadMesh.collect_strip\<close>; the first argument is the counter
  \<^verbatim>\<open>count\<close>, which the source starts at the number of edges.
\<close>

fun collect_strip_loop :: "'c mesh \<Rightarrow> nat \<Rightarrow> edge list \<Rightarrow> error + edge list" where
  "collect_strip_loop m 0 es = Inr es"
| "collect_strip_loop m (Suc count) es =
     (case face_opposite_edge m (fst (last es)) (snd (last es)) of
        Inl e \<Rightarrow> Inl e
      | Inr (w, x) \<Rightarrow>
          if (x, w) = hd es then Inr es
          else
            (case has_face m x w of
               Inl e \<Rightarrow> Inl e
             | Inr True \<Rightarrow> collect_strip_loop m count (es @ [(x, w)])
             | Inr False \<Rightarrow>
                 (let es' = flip_edges (es @ [(x, w)]) in
                  case has_face m (fst (last es')) (snd (last es')) of
                    Inl e \<Rightarrow> Inl e
                  | Inr True \<Rightarrow> collect_strip_loop m count es'
                  | Inr False \<Rightarrow> Inr es')))"

definition collect_strip :: "'c mesh \<Rightarrow> vkey \<Rightarrow> vkey \<Rightarrow> error + edge list" where
  "collect_strip m u0 v0 =
     rbind (he m u0 v0) (\<lambda>fk.
       collect_strip_loop m (number_of_edges m)
         [if fk = None then (v0, u0) else (u0, v0)])"

text \<open>The inner loop of \<^verbatim>\<open>collect_strips\<close> that takes the collected edges off the stack.\<close>

fun remove_collected :: "edge list \<Rightarrow> edge list \<Rightarrow> edge list" where
  "remove_collected [] es = es"
| "remove_collected ((u, v) # ps) es =
     remove_collected ps
       (if (u, v) \<in> set es then remove1 (u, v) es
        else if (v, u) \<in> set es then remove1 (v, u) es
        else es)"

lemma length_remove_collected: "length (remove_collected ps es) \<le> length es"
proof (induction ps arbitrary: es)
  case Nil
  show ?case by simp
next
  case (Cons p ps)
  obtain u v where p: "p = (u, v)" by (cases p)
  have "length (remove_collected ps (remove1 e es)) \<le> length es" for e
    using Cons.IH [of "remove1 e es"] by (simp add: length_remove1 split: if_splits)
  with Cons.IH [of es] show ?case by (simp add: p)
qed

text \<open>
  The outer loop of \<^verbatim>\<open>QuadMesh.collect_strips\<close>: the stack of edges, the last
  strip key handed out and the strip table.
\<close>

function collect_strips_loop ::
    "'c mesh \<Rightarrow> edge list \<Rightarrow> int \<Rightarrow> (nat \<times> edge list) list \<Rightarrow> error + int \<times> (nat \<times> edge list) list" where
  "collect_strips_loop m es strip_key tbl =
     (if es = [] then Inr (strip_key, tbl)
      else
        (case collect_strip m (fst (last es)) (snd (last es)) of
           Inl e \<Rightarrow> Inl e
         | Inr strip_edges \<Rightarrow>
             collect_strips_loop m (remove_collected strip_edges (butlast es)) (strip_key + 1)
               (AList.update (nat (strip_key + 1)) strip_edges tbl)))"
  by pat_completeness auto
termination
proof (relation "measure (\<lambda>(m, es, k, t). length es)")
  show "wf (measure (\<lambda>(m, es, k, t). length es))" by simp
next
  fix m :: "'c mesh" and es :: "edge list" and strip_key :: int
    and tbl :: "(nat \<times> edge list) list" and se :: "edge list"
  assume "es \<noteq> []"
  then have "length (butlast es) < length es" by (cases es rule: rev_cases) simp_all
  with length_remove_collected [of se "butlast es"]
  show "((m, remove_collected se (butlast es), strip_key + 1,
          AList.update (nat (strip_key + 1)) se tbl), (m, es, strip_key, tbl))
        \<in> measure (\<lambda>(m, es, k, t). length es)"
    by simp
qed

declare collect_strips_loop.simps [simp del]

text \<open>\<^verbatim>\<open>QuadMesh.collect_strips\<close>: the returned integer and the mesh with its new strip table.\<close>

definition collect_strips :: "'c mesh \<Rightarrow> error + int \<times> 'c mesh" where
  "collect_strips m =
     rbind (not_none_edges m) (\<lambda>es.
     rbind (collect_strips_loop m es (- 1) []) (\<lambda>(k, tbl). Inr (k, m\<lparr> strip := tbl \<rparr>)))"

section \<open>QuadMesh: opposite vertices and polyedges\<close>

text \<open>
  Modelled from the spec: \<^verbatim>\<open>vertex_neighbors(v, ordered=True)\<close> of the mesh kernel
  (COMPAS library, not in the sources), the cyclically ordered neighbour list. It starts
  at a neighbour whose half-edge from \<open>v\<close> has no face (the first neighbour when there
  is none) and turns around \<open>v\<close> from face to face until it is back at the start or
  meets the boundary; the kernel bounds the walk by 1000 steps.
\<close>

fun ordered_walk ::
    "'c mesh \<Rightarrow> nat \<Rightarrow> vkey \<Rightarrow> vkey \<Rightarrow> fkey option \<Rightarrow> vkey list \<Rightarrow> error + vkey list" where
  "ordered_walk m 0 key start fk nbrs = Inr nbrs"
| "ordered_walk m (Suc count) key start fk nbrs =
     (case face_vertex_descendant m fk key of
        Inl e \<Rightarrow> Inl e
      | Inr nbr \<Rightarrow>
          (case he m nbr key of
             Inl e \<Rightarrow> Inl e
           | Inr fk' \<Rightarrow>
               if nbr = start then Inr nbrs
               else if fk' = None then Inr (nbrs @ [nbr])
               else ordered_walk m count key start fk' (nbrs @ [nbr])))"

definition vertex_neighbors_ordered :: "'c mesh \<Rightarrow> vkey \<Rightarrow> error + vkey list" where
  "vertex_neighbors_ordered m key =
     rbind (getitem (halfedge m) key) (\<lambda>d.
       if length d \<le> 1 then Inr (map fst d)
       else
         rbind (he m (case find (\<lambda>p. snd p = None) d of Some p \<Rightarrow> fst p | None \<Rightarrow> fst (hd d)) key)
           (\<lambda>fk. ordered_walk m 1000 key
                    (case find (\<lambda>p. snd p = None) d of Some p \<Rightarrow> fst p | None \<Rightarrow> fst (hd d))
                    fk
                    [case find (\<lambda>p. snd p = None) d of Some p \<Rightarrow> fst p | None \<Rightarrow> fst (hd d)]))"

text \<open>
  The comprehension of \<^verbatim>\<open>vertex_opposite_vertex\<close>:
  \<^verbatim>\<open>[nbr for nbr in nbrs if nbr != u and self.is_vertex_on_boundary(nbr)]\<close>.
\<close>

fun other_boundary_nbrs :: "'c mesh \<Rightarrow> vkey \<Rightarrow> vkey list \<Rightarrow> error + vkey list" where
  "other_boundary_nbrs m u [] = Inr []"
| "other_boundary_nbrs m u (nbr # ns) =
     (if nbr = u then other_boundary_nbrs m u ns
      else case is_vertex_on_boundary m nbr of
             Inl e \<Rightarrow> Inl e
           | Inr b \<Rightarrow> (case other_boundary_nbrs m u ns of
                         Inl e \<Rightarrow> Inl e
                       | Inr l \<Rightarrow> Inr (if b then nbr # l else l)))"

text \<open>\<^verbatim>\<open>QuadMesh.vertex_opposite_vertex\<close>; the inner option is Python's \<^verbatim>\<open>None\<close>.\<close>

definition vertex_opposite_vertex :: "'c mesh \<Rightarrow> vkey \<Rightarrow> vkey \<Rightarrow> error + vkey option" where
  "vertex_opposite_vertex m u v =
     rbind (is_vertex_singular m v) (\<lambda>sing.
       if sing then Inr None
       else rbind (is_vertex_on_boundary m v) (\<lambda>bv.
         if bv then
           rbind (is_vertex_on_boundary m u) (\<lambda>bu.
             if \<not> bu then Inr None
             else rbind (vertex_neighbors m v) (\<lambda>ns.
                  rbind (other_boundary_nbrs m u ns) (\<lambda>l.
                  rbind (py_nth l 0) (\<lambda>w. Inr (Some w)))))
         else
           rbind (vertex_neighbors_ordered m v) (\<lambda>nbrs.
           rbind (index_of nbrs u) (\<lambda>i.
           rbind (py_nth nbrs (int i - 2)) (\<lambda>w. Inr (Some w))))))"

text \<open>
  The loop of \<^verbatim>\<open>QuadMesh.polyedge\<close>. The list has at least two vertices, so
  \<^verbatim>\<open>polyedge[-2:]\<close> is its last two.
\<close>

function polyedge_loop :: "'c mesh \<Rightarrow> vkey list \<Rightarrow> error + vkey list" where
  "polyedge_loop m pe =
     (if \<not> length pe \<le> number_of_vertices m then Inr pe
      else if hd pe = last pe then Inr pe
      else
        (case vertex_opposite_vertex m (last (butlast pe)) (last pe) of
           Inl e \<Rightarrow> Inl e
         | Inr (Some w) \<Rightarrow> polyedge_loop m (pe @ [w])
         | Inr None \<Rightarrow>
             (case vertex_opposite_vertex m (last (butlast (rev pe))) (last (rev pe)) of
                Inl e \<Rightarrow> Inl e
              | Inr None \<Rightarrow> Inr (rev pe)
              | Inr (Some w) \<Rightarrow> polyedge_loop m (rev pe @ [w]))))"
  by pat_completeness auto
termination
  by (relation "measure (\<lambda>(m, pe). Suc (number_of_vertices m) - length pe)") auto

declare polyedge_loop.simps [simp del]

definition polyedge :: "'c mesh \<Rightarrow> vkey \<Rightarrow> vkey \<Rightarrow> error + vkey list" where
  "polyedge m u0 v0 = polyedge_loop m [u0, v0]"

text \<open>The loop of \<^verbatim>\<open>QuadMesh.polyedges\<close>: the stack of edges and the polyedges so far.\<close>

function polyedges_loop :: "'c mesh \<Rightarrow> edge list \<Rightarrow> vkey list list \<Rightarrow> error + vkey list list" where
  "polyedges_loop m es acc =
     (if es = [] then Inr acc
      else
        (case polyedge m (fst (last es)) (snd (last es)) of
           Inl e \<Rightarrow> Inl e
         | Inr pe \<Rightarrow>
             polyedges_loop m (remove_collected (pairwise pe) (butlast es)) (acc @ [pe])))"
  by pat_completeness auto
termination
proof (relation "measure (\<lambda>(m, es, acc). length es)")
  show "wf (measure (\<lambda>(m, es, acc). length es))" by simp
next
  fix m :: "'c mesh" and es :: "edge list" and acc :: "vkey list list" and pe :: "vkey list"
  assume "es \<noteq> []"
  then have "length (butlast es) < length es" by (cases es rule: rev_cases) simp_all
  with length_remove_collected [of "pairwise pe" "butlast es"]
  show "((m, remove_collected (pairwise pe) (butlast es), acc @ [pe]), (m, es, acc))
        \<in> measure (\<lambda>(m, es, acc). length es)"
    by simp
qed

declare polyedges_loop.simps [simp del]

definition polyedges :: "'c mesh \<Rightarrow> error + vkey list list" where
  "polyedges m = polyedges_loop m (edges m) []"

section \<open>Face deletion and the merge of two face strips\<close>

text \<open>
  Modelled from the spec: \<^verbatim>\<open>delete_face(id)\<close> of the mesh kernel (COMPAS library, not
  in the sources): it clears the half-edge entries of the face, and removes both
  directions of an edge that has no face left on either side.
\<close>

fun unlink_face :: "edge list
    \<Rightarrow> (vkey \<times> (vkey \<times> fkey option) list) list
    \<Rightarrow> error + (vkey \<times> (vkey \<times> fkey option) list) list" where
  "unlink_face [] h = Inr h"
| "unlink_face ((u, v) # ps) h =
     (case map_of h u of
        None \<Rightarrow> Inl KeyError
      | Some _ \<Rightarrow>
          (case rbind (getitem (set_he u v None h) v) (\<lambda>nbrs. getitem nbrs u) of
             Inl e \<Rightarrow> Inl e
           | Inr None \<Rightarrow> unlink_face ps (del_he v u (del_he u v (set_he u v None h)))
           | Inr (Some g) \<Rightarrow> unlink_face ps (set_he u v None h)))"

definition delete_face :: "fkey option \<Rightarrow> 'c mesh \<Rightarrow> error + 'c mesh" where
  "delete_face fk m =
     (case fk of
        None \<Rightarrow> Inl KeyError
      | Some f \<Rightarrow>
          rbind (getitem (face m) f) (\<lambda>vs.
          rbind (unlink_face (cycle_keys vs) (halfedge m)) (\<lambda>h.
            Inr (m\<lparr> halfedge := h, face := AList.delete f (face m) \<rparr>))))"

text \<open>
  \<^verbatim>\<open>face_strips_merge\<close> asks \<^verbatim>\<open>quad_mesh_polylines(mesh)\<close> for the polylines of the
  mesh; no function of that name is in the sources, so its result is the parameter
  \<open>polylines\<close>. The polyedge is the last polyline that has \<open>u\<close> and \<open>v\<close> next to each
  other; when there is none the name \<^verbatim>\<open>polyedge\<close> is unbound.
\<close>

definition on_polyline :: "vkey \<Rightarrow> vkey \<Rightarrow> vkey list \<Rightarrow> bool" where
  "on_polyline u v polyline \<longleftrightarrow> (u, v) \<in> set (pairwise polyline) \<or> (v, u) \<in> set (pairwise polyline)"

definition select_polyedge :: "vkey list list \<Rightarrow> vkey \<Rightarrow> vkey \<Rightarrow> error + vkey list" where
  "select_polyedge polylines u v =
     (case filter (on_polyline u v) polylines of
        [] \<Rightarrow> Inl UnboundLocalError
      | p # ps \<Rightarrow> Inr (last (p # ps)))"

text \<open>
  The check loop of \<^verbatim>\<open>face_strips_merge\<close> measures the degree of a vertex with
  \<^verbatim>\<open>len(mesh.vertex_neighbours(vkey))\<close>. Neither the sources nor the mesh kernel of
  the spec have a method of that name (the kernel's is \<^verbatim>\<open>vertex_neighbors\<close>, which
  \<^verbatim>\<open>QuadMesh\<close> uses), so the attribute lookup raises AttributeError.
\<close>

definition vertex_neighbours :: "'c mesh \<Rightarrow> vkey \<Rightarrow> error + vkey list" where
  "vertex_neighbours m vkey = Inl AttributeError"

text \<open>
  The loop \<^verbatim>\<open>for vkey in polyedge\<close>: is some vertex of the polyedge not regular?
  Each pass asks \<^verbatim>\<open>is_vertex_on_boundary(vkey)\<close> first and then, on either side of
  the \<^verbatim>\<open>or\<close>, \<^verbatim>\<open>vertex_neighbours(vkey)\<close> once.
\<close>

fun any_singular :: "'c mesh \<Rightarrow> vkey list \<Rightarrow> error + bool" where
  "any_singular m [] = Inr False"
| "any_singular m (vkey # vs) =
     (case is_vertex_on_boundary m vkey of
        Inl e \<Rightarrow> Inl e
      | Inr b \<Rightarrow>
          (case vertex_neighbours m vkey of
             Inl e \<Rightarrow> Inl e
           | Inr ns \<Rightarrow>
               if (b \<and> length ns \<noteq> 3) \<or> (\<not> b \<and> length ns \<noteq> 4) then Inr True
               else any_singular m vs))"

text \<open>The merge loop over the edges of the polyedge; it returns the new face keys.\<close>

fun merge_along :: "'c mesh \<Rightarrow> edge list \<Rightarrow> fkey option list \<Rightarrow> error + fkey option list \<times> 'c mesh" where
  "merge_along m [] faces = Inr (faces, m)"
| "merge_along m ((u, v) # ps) faces =
     rbind (he m u v) (\<lambda>fkey_1.
     rbind (he m v u) (\<lambda>fkey_2.
     rbind (face_vertex_descendant m fkey_1 v) (\<lambda>a.
     rbind (face_vertex_descendant m fkey_1 a) (\<lambda>b.
     rbind (face_vertex_descendant m fkey_2 u) (\<lambda>c.
     rbind (face_vertex_descendant m fkey_2 c) (\<lambda>d.
     rbind (delete_face fkey_1 m) (\<lambda>m1.
     rbind (delete_face fkey_2 m1) (\<lambda>m2.
       merge_along (snd (add_face [a, b, c, d] None m2)) ps
         (faces @ [fst (add_face [a, b, c, d] None m2)])))))))))"

text \<open>
  \<^verbatim>\<open>face_strips_merge\<close>: the returned value (\<^verbatim>\<open>None\<close> or the list of new faces) and
  the mesh after the call.
\<close>

definition face_strips_merge ::
    "vkey list list \<Rightarrow> 'c mesh \<Rightarrow> vkey \<Rightarrow> vkey \<Rightarrow> error + fkey option list option \<times> 'c mesh" where
  "face_strips_merge polylines m u v =
     (if \<not> is_quadmesh m then Inr (None, m)
      else rbind (is_edge_on_boundary m u v) (\<lambda>bd.
        if bd then Inr (None, m)
        else rbind (select_polyedge polylines u v) (\<lambda>polyedge.
             rbind (any_singular m polyedge) (\<lambda>sing.
               if sing then Inr (None, m)
               else rbind (merge_along m (pairwise polyedge) [])
                      (\<lambda>(faces, m'). Inr (Some faces, m'))))))"

section \<open>Boundary polylines\<close>

text \<open>
  \<^verbatim>\<open>mesh_polylines_boundary\<close> first collects the end points of the half-edges without a
  face in a set and turns the set into a list; the order of that list is not fixed by
  the source, so the loops take the list \<open>vertices\<close> as an argument and the theorems
  hold for every order. \<open>boundary_vertices\<close> is that list in ascending order of the
  keys, the order in which CPython lists a set of small integers; \<^verbatim>\<open>pop()\<close> then
  starts at the largest key.
\<close>

definition none_halfedges :: "'c mesh \<Rightarrow> edge list" where
  "none_halfedges m =
     concat (map (\<lambda>(u, nbrs). map (\<lambda>p. (u, fst p)) (filter (\<lambda>p. snd p = None) nbrs)) (halfedge m))"

definition boundary_vertices :: "'c mesh \<Rightarrow> vkey list" where
  "boundary_vertices m = sort (remdups (concat (map (\<lambda>(u, v). [u, v]) (none_halfedges m))))"

text \<open>
  The \<^verbatim>\<open>for\<close> loop inside \<^verbatim>\<open>while 1\<close>: append the end of the first half-edge
  without a face that leaves the last vertex, if there is one.
\<close>

definition extend_boundary :: "'c mesh \<Rightarrow> vkey list \<Rightarrow> error + vkey list" where
  "extend_boundary m boundary =
     rbind (getitem (halfedge m) (last boundary)) (\<lambda>nbrs.
       Inr (case find (\<lambda>p. snd p = None) nbrs of
              Some p \<Rightarrow> boundary @ [fst p]
            | None \<Rightarrow> boundary))"

text \<open>
  The loop \<^verbatim>\<open>while 1\<close>. The last argument counts the passes through the loop body;
  it is returned with the result, also when an exception ends the loop.
\<close>

function trace_boundary ::
    "'c mesh \<Rightarrow> vkey list \<Rightarrow> vkey list \<Rightarrow> nat \<Rightarrow> (error + vkey list \<times> vkey list) \<times> nat" where
  "trace_boundary m vertices boundary steps =
     (case extend_boundary m boundary of
        Inl e \<Rightarrow> (Inl e, Suc steps)
      | Inr boundary' \<Rightarrow>
          if hd boundary' = last boundary' then (Inr (vertices, boundary'), Suc steps)
          else if last boundary' \<in> set vertices
            then trace_boundary m (remove1 (last boundary') vertices) boundary' (Suc steps)
            else (Inl ValueError, Suc steps))"
  by pat_completeness auto
termination
proof (relation "measure (\<lambda>(m, vertices, boundary, steps). length vertices)")
  show "wf (measure (\<lambda>(m, vertices, boundary, steps). length vertices))" by simp
next
  fix m :: "'c mesh" and vertices boundary b :: "vkey list" and steps :: nat
  assume "last b \<in> set vertices"
  then have "0 < length vertices" by (rule length_pos_if_in_set)
  with \<open>last b \<in> set vertices\<close>
  show "((m, remove1 (last b) vertices, b, Suc steps), (m, vertices, boundary, steps))
        \<in> measure (\<lambda>(m, vertices, boundary, steps). length vertices)"
    by (simp add: length_remove1)
qed

declare trace_boundary.simps [simp del]

lemma trace_boundary_steps:
  "trace_boundary m vs b n = (r, n') \<Longrightarrow>
     (case r of Inl e \<Rightarrow> n' \<le> n + length vs + 1
      | Inr (vs', b') \<Rightarrow> n' + length vs' = n + length vs + 1)"
proof (induction m vs b n rule: trace_boundary.induct)
  case (1 m vs b n)
  show ?case
  proof (cases "extend_boundary m b")
    case (Inl e)
    with "1.prems" show ?thesis by (auto simp: trace_boundary.simps)
  next
    case (Inr b')
    show ?thesis
    proof (cases "hd b' = last b'")
      case True
      with Inr "1.prems" show ?thesis by (auto simp: trace_boundary.simps)
    next
      case False
      show ?thesis
      proof (cases "last b' \<in> set vs")
        case mem: True
        with Inr False "1.prems"
        have "trace_boundary m (remove1 (last b') vs) b' (Suc n) = (r, n')"
          by (simp add: trace_boundary.simps)
        from mem have "0 < length vs" by (rule length_pos_if_in_set)
        with mem have "Suc (length (remove1 (last b') vs)) = length vs"
          by (simp add: length_remove1)
        with "1.IH" [OF Inr False mem \<open>trace_boundary m (remove1 (last b') vs) b' (Suc n) = (r, n')\<close>]
        show ?thesis
          by (cases r) auto
      next
        case nmem: False
        with Inr False "1.prems" show ?thesis by (auto simp: trace_boundary.simps)
      qed
    qed
  qed
qed

lemma trace_boundary_counts: "trace_boundary m vs b k = (res, k') \<Longrightarrow> k < k'"
proof (induction m vs b k rule: trace_boundary.induct)
  case (1 m vs b k)
  from "1.prems" show ?case
    by (subst (asm) trace_boundary.simps) (auto split: sum.splits if_splits dest: "1.IH")
qed

lemma trace_boundary_shrinks:
  assumes "trace_boundary m vs b k = (Inr (vs', b'), k')"
  shows "length vs' \<le> length vs"
proof -
  from trace_boundary_steps [OF assms] have "k' + length vs' = k + length vs + 1" by simp
  moreover from trace_boundary_counts [OF assms] have "k < k'" .
  ultimately show ?thesis by simp
qed

text \<open>The loop \<^verbatim>\<open>while len(vertices) > 0\<close>, with the same counter.\<close>

function boundary_loop ::
    "'c mesh \<Rightarrow> vkey list \<Rightarrow> vkey list list \<Rightarrow> nat \<Rightarrow> (error + vkey list list) \<times> nat" where
  "boundary_loop m vertices boundaries steps =
     (if vertices = [] then (Inr boundaries, steps)
      else
        (case trace_boundary m (butlast vertices) [last vertices] steps of
           (Inl e, n) \<Rightarrow> (Inl e, n)
         | (Inr (vertices', boundary), n) \<Rightarrow>
             boundary_loop m vertices' (boundaries @ [boundary]) n))"
  by pat_completeness auto
termination
proof (relation "measure (\<lambda>(m, vertices, boundaries, steps). length vertices)")
  show "wf (measure (\<lambda>(m, vertices, boundaries, steps). length vertices))" by simp
next
  fix m :: "'c mesh" and vertices :: "vkey list" and boundaries :: "vkey list list"
    and steps n :: nat and x :: "error + vkey list \<times> vkey list" and r vertices' boundary
  assume ne: "vertices \<noteq> []"
    and t: "(x, n) = trace_boundary m (butlast vertices) [last vertices] steps"
    and r: "x = Inr r" "(vertices', boundary) = r"
  then have "trace_boundary m (butlast vertices) [last vertices] steps = (Inr (vertices', boundary), n)"
    by simp
  then have "length vertices' \<le> length (butlast vertices)"
    by (rule trace_boundary_shrinks)
  moreover from ne have "length (butlast vertices) < length vertices"
    by (cases vertices rule: rev_cases) simp_all
  ultimately show "((m, vertices', boundaries @ [boundary], n), (m, vertices, boundaries, steps))
        \<in> measure (\<lambda>(m, vertices, boundaries, steps). length vertices)"
    by simp
qed

declare boundary_loop.simps [simp del]

text \<open>\<^verbatim>\<open>mesh_polylines_boundary\<close>, from the list of boundary vertices in ascending order.\<close>

definition mesh_polylines_boundary :: "'c mesh \<Rightarrow> error + vkey list list" where
  "mesh_polylines_boundary m = fst (boundary_loop m (boundary_vertices m) [] 0)"

section \<open>Evaluation of the kernel on concrete meshes\<close>

lemmas kernel_defs = rbind_def getitem_def he_def has_face_def vertex_neighbors_def
  vertex_degree_def is_vertex_on_boundary_def is_edge_on_boundary_def
  face_vertex_descendant_def py_nth_def

lemmas build_defs = from_vertices_and_faces_def add_vertex_def add_face_def empty_mesh_def
  trim_cycle_def cycle_keys_def set_he_def Let_def

lemmas strip_defs = collect_strips_def not_none_edges_def edges_def halfedge_pairs_def
  collect_strips_loop.simps collect_strip_def number_of_edges_def face_opposite_edge_def
  flip_edges_def

section \<open>The single quad face\<close>

definition single_quad :: "'c \<Rightarrow> 'c \<Rightarrow> 'c \<Rightarrow> 'c \<Rightarrow> 'c mesh" where
  "single_quad c0 c1 c2 c3 = from_vertices_and_faces [c0, c1, c2, c3] [[0, 1, 2, 3]]"

lemma single_quad_eq:
  "single_quad c0 c1 c2 c3 =
     \<lparr> vertex = [(0, c0), (1, c1), (2, c2), (3, c3)], face = [(0, [0, 1, 2, 3])],
       halfedge = [(0, [(1, Some 0), (3, None)]), (1, [(0, None), (2, Some 0)]),
                   (2, [(1, None), (3, Some 0)]), (3, [(2, None), (0, Some 0)])],
       max_int_key = 3, max_int_fkey = 0, strip = [] \<rparr>"
  by (simp add: single_quad_def build_defs)

lemma single_quad_strips:
  "collect_strips (single_quad c0 c1 c2 c3) =
     Inr (1, (single_quad c0 c1 c2 c3)
              \<lparr> strip := [(0, [(0, 1), (3, 2)]), (1, [(3, 0), (2, 1)])] \<rparr>)"
  unfolding single_quad_eq by (simp add: strip_defs kernel_defs)

section \<open>The integer returned by collect_strips\<close>

lemma collect_strips_loop_keys:
  "collect_strips_loop m es k tbl = Inr (k', tbl') \<Longrightarrow> - 1 \<le> k
   \<Longrightarrow> map fst tbl = [0..<nat (k + 1)]
   \<Longrightarrow> map fst tbl' = [0..<nat (k' + 1)] \<and> k \<le> k' \<and> (es \<noteq> [] \<longrightarrow> k < k')"
proof (induction m es k tbl rule: collect_strips_loop.induct)
  case (1 m es k tbl)
  show ?case
  proof (cases "es = []")
    case True
    with "1.prems" show ?thesis by (simp add: collect_strips_loop.simps)
  next
    case False
    from "1.prems"(1) False obtain se
      where se: "collect_strip m (fst (last es)) (snd (last es)) = Inr se"
      and rec: "collect_strips_loop m (remove_collected se (butlast es)) (k + 1)
               (AList.update (nat (k + 1)) se tbl) = Inr (k', tbl')"
      by (subst (asm) collect_strips_loop.simps) (auto split: sum.splits)
    have fresh: "nat (k + 1) \<notin> set (map fst tbl)" using "1.prems" by simp
    have "nat (k + 1 + 1) = Suc (nat (k + 1))" using "1.prems"(2) by simp
    then have keys: "map fst (AList.update (nat (k + 1)) se tbl) = [0..<nat (k + 1 + 1)]"
      using fresh "1.prems"(3) by (simp add: update_keys del: upt_Suc add: upt_Suc_append)
    from "1.IH" [OF False se rec _ keys] "1.prems"(2) False show ?thesis by simp
  qed
qed

lemma not_none_edges_of_length:
  "not_none_edges_of m es = Inr es' \<Longrightarrow> length es' = length es"
  by (induction m es arbitrary: es' rule: not_none_edges_of.induct)
     (auto split: sum.splits)

text \<open>
  C10. On a mesh with no edges \<^verbatim>\<open>collect_strips()\<close> returns -1 and leaves the strip
  table empty. On a mesh with at least one edge, when it returns an integer \<open>k\<close>, the
  keys of the strip table are the consecutive integers 0..k, so that \<open>k\<close> is the number
  of strips stored minus one.
\<close>

theorem collect_strips_returns_last_key:
  "(edges m = [] \<longrightarrow> collect_strips m = Inr (- 1, m\<lparr> strip := [] \<rparr>))
   \<and> (edges m \<noteq> [] \<longrightarrow> collect_strips m = Inr (k, m') \<longrightarrow>
        0 \<le> k \<and> map fst (strip m') = [0..<nat k + 1] \<and> k = int (length (strip m')) - 1)"
proof (rule conjI; rule impI)
  assume "edges m = []"
  then show "collect_strips m = Inr (- 1, m\<lparr> strip := [] \<rparr>)"
    by (simp add: collect_strips_def not_none_edges_def rbind_def collect_strips_loop.simps)
next
  assume ne: "edges m \<noteq> []"
  show "collect_strips m = Inr (k, m') \<longrightarrow>
        0 \<le> k \<and> map fst (strip m') = [0..<nat k + 1] \<and> k = int (length (strip m')) - 1"
  proof
  assume res: "collect_strips m = Inr (k, m')"
  from res obtain es tbl where es: "not_none_edges m = Inr es"
    and loop: "collect_strips_loop m es (- 1) [] = Inr (k, tbl)" and m': "m' = m\<lparr> strip := tbl \<rparr>"
    by (auto simp: collect_strips_def rbind_def split: sum.splits)
  from es ne have "es \<noteq> []"
    using not_none_edges_of_length [of m "edges m" es] by (auto simp: not_none_edges_def)
  with collect_strips_loop_keys [OF loop] have keys: "map fst tbl = [0..<nat (k + 1)]" and k: "- 1 < k"
    by simp_all
  from k have nk: "nat (k + 1) = nat k + 1" by simp
  from keys have "length tbl = nat (k + 1)" by (metis length_map length_upt minus_nat.diff_0)
  with k keys nk m' show "0 \<le> k \<and> map fst (strip m') = [0..<nat k + 1] \<and> k = int (length (strip m')) - 1"
    by simp
  qed
qed

theorem collect_strips_returns_last_key_witness:
  "edges (single_quad () () () ()) \<noteq> []
   \<and> collect_strips (single_quad () () () ())
       = Inr (1, (single_quad () () () ())\<lparr> strip := [(0, [(0, 1), (3, 2)]), (1, [(3, 0), (2, 1)])] \<rparr>)
   \<and> map fst (strip ((single_quad () () () ())\<lparr> strip := [(0, [(0, 1), (3, 2)]), (1, [(3, 0), (2, 1)])] \<rparr>))
       = [0..<nat 1 + 1]
   \<and> (1::int) = int (length (strip ((single_quad () () () ())
         \<lparr> strip := [(0, [(0, 1), (3, 2)]), (1, [(3, 0), (2, 1)])] \<rparr>))) - 1"
proof -
  have ne: "edges (single_quad () () () ()) \<noteq> []"
    unfolding single_quad_eq by (simp add: edges_def halfedge_pairs_def)
  have cs: "collect_strips (single_quad () () () ())
       = Inr (1, (single_quad () () () ())\<lparr> strip := [(0, [(0, 1), (3, 2)]), (1, [(3, 0), (2, 1)])] \<rparr>)"
    by (rule single_quad_strips)
  from collect_strips_returns_last_key [THEN conjunct2, rule_format, OF ne cs] ne cs
  show ?thesis by (intro conjI) (elim conjE, assumption)+
qed

text \<open>
  C6. On the mesh of the single quad face 0-1-2-3: \<^verbatim>\<open>is_quadmesh()\<close> is true; every
  vertex has degree 2 and is reported singular; \<^verbatim>\<open>collect_strips()\<close> leaves exactly
  two strips in the table, each of exactly two edges, and the two edges of a strip are
  boundary edges of the face that are opposite in it (the edge opposite to the one,
  reversed, is the other).
\<close>

theorem single_quad_scenario:
  "is_quadmesh (single_quad c0 c1 c2 c3)
   \<and> map (vertex_degree (single_quad c0 c1 c2 c3)) [0, 1, 2, 3] = [Inr 2, Inr 2, Inr 2, Inr 2]
   \<and> map (is_vertex_singular (single_quad c0 c1 c2 c3)) [0, 1, 2, 3]
       = [Inr True, Inr True, Inr True, Inr True]
   \<and> (\<exists>k a b c d. collect_strips (single_quad c0 c1 c2 c3)
          = Inr (k, (single_quad c0 c1 c2 c3)\<lparr> strip := [(0, [a, b]), (1, [c, d])] \<rparr>)
        \<and> map (\<lambda>e. is_edge_on_boundary (single_quad c0 c1 c2 c3) (fst e) (snd e)) [a, b, c, d]
            = [Inr True, Inr True, Inr True, Inr True]
        \<and> face_opposite_edge (single_quad c0 c1 c2 c3) (fst a) (snd a) = Inr (snd b, fst b)
        \<and> face_opposite_edge (single_quad c0 c1 c2 c3) (fst c) (snd c) = Inr (snd d, fst d)
        \<and> set (edges (single_quad c0 c1 c2 c3)) = {a, (snd b, fst b), (snd c, fst c), (snd d, fst d)})"
proof -
  let ?q = "single_quad c0 c1 c2 c3"
  have 1: "is_quadmesh ?q"
    unfolding single_quad_eq by (simp add: is_quadmesh_def)
  have 2: "map (vertex_degree ?q) [0, 1, 2, 3] = [Inr 2, Inr 2, Inr 2, Inr 2]"
    unfolding single_quad_eq by (simp add: kernel_defs)
  have 3: "map (is_vertex_singular ?q) [0, 1, 2, 3] = [Inr True, Inr True, Inr True, Inr True]"
    unfolding single_quad_eq by (simp add: is_vertex_singular_def kernel_defs)
  have 4: "map (\<lambda>e. is_edge_on_boundary ?q (fst e) (snd e)) [(0, 1), (3, 2), (3, 0), (2, 1)]
            = [Inr True, Inr True, Inr True, Inr True]"
    unfolding single_quad_eq by (simp add: kernel_defs)
  have 5: "face_opposite_edge ?q (fst (0, 1)) (snd (0, 1)) = Inr (snd (3, 2), fst (3, 2))"
    unfolding single_quad_eq by (simp add: face_opposite_edge_def kernel_defs)
  have 6: "face_opposite_edge ?q (fst (3, 0)) (snd (3, 0)) = Inr (snd (2, 1), fst (2, 1))"
    unfolding single_quad_eq by (simp add: face_opposite_edge_def kernel_defs)
  have 7: "set (edges ?q) = {(0, 1), (snd (3, 2), fst (3, 2)), (snd (3, 0), fst (3, 0)),
                             (snd (2, 1), fst (2, 1))}"
    unfolding single_quad_eq by (simp add: edges_def halfedge_pairs_def insert_commute)
  have 8: "collect_strips ?q = Inr (1, ?q\<lparr> strip := [(0, [(0, 1), (3, 2)]), (1, [(3, 0), (2, 1)])] \<rparr>)"
    by (rule single_quad_strips)
  have "\<exists>k a b c d. collect_strips ?q = Inr (k, ?q\<lparr> strip := [(0, [a, b]), (1, [c, d])] \<rparr>)
        \<and> map (\<lambda>e. is_edge_on_boundary ?q (fst e) (snd e)) [a, b, c, d]
            = [Inr True, Inr True, Inr True, Inr True]
        \<and> face_opposite_edge ?q (fst a) (snd a) = Inr (snd b, fst b)
        \<and> face_opposite_edge ?q (fst c) (snd c) = Inr (snd d, fst d)
        \<and> set (edges ?q) = {a, (snd b, fst b), (snd c, fst c), (snd d, fst d)}"
    apply (rule exI [of _ 1])
    apply (rule exI [of _ "(0, 1)"])
    apply (rule exI [of _ "(3, 2)"])
    apply (rule exI [of _ "(3, 0)"])
    apply (rule exI [of _ "(2, 1)"])
    apply (intro conjI)
        apply (rule 8)
       apply (rule 4)
      apply (rule 5)
     apply (rule 6)
    apply (rule 7)
    done
  with 1 2 3 show ?thesis by (intro conjI) assumption+
qed

section \<open>The opposite vertex\<close>

lemma index_of_mem: "x \<in> set xs \<Longrightarrow> \<exists>i. index_of xs x = Inr i \<and> i < length xs \<and> xs ! i = x"
  by (induction xs) auto

lemma index_of_nth_distinct: "distinct xs \<Longrightarrow> i < length xs \<Longrightarrow> index_of xs (xs ! i) = Inr i"
proof (induction xs arbitrary: i)
  case Nil
  then show ?case by simp
next
  case (Cons y ys)
  show ?case
  proof (cases i)
    case 0
    then show ?thesis by simp
  next
    case (Suc j)
    with Cons.prems have "j < length ys" "ys ! j \<in> set ys" "y \<notin> set ys" by auto
    with Cons.IH [of j] Cons.prems Suc show ?thesis by auto
  qed
qed

lemma py_nth_offset:
  "2 \<le> length xs \<Longrightarrow> i < length xs \<Longrightarrow>
   py_nth xs (int i - 2) = Inr (xs ! nat ((int i - 2) mod int (length xs)))"
proof -
  assume a: "2 \<le> length xs" "i < length xs"
  show ?thesis
  proof (cases "2 \<le> i")
    case True
    with a have "(int i - 2) mod int (length xs) = int i - 2" by simp
    with True a show ?thesis by (simp add: py_nth_def)
  next
    case False
    have "(int i - 2) mod int (length xs) = (int i - 2 + int (length xs)) mod int (length xs)"
      by simp
    also from False a have "\<dots> = int i - 2 + int (length xs)"
      by (intro mod_pos_pos_trivial) simp_all
    finally have "(int i - 2) mod int (length xs) = int (length xs) + (int i - 2)" by simp
    with False a show ?thesis by (simp add: py_nth_def)
  qed
qed

lemma other_boundary_nbrs_filter:
  "\<forall>n\<in>set ns. n \<in> fst ` set (halfedge m) \<Longrightarrow>
   other_boundary_nbrs m u ns = Inr (filter (\<lambda>n. n \<noteq> u \<and> is_vertex_on_boundary m n = Inr True) ns)"
proof (induction ns)
  case Nil
  show ?case by simp
next
  case (Cons n ns)
  from Cons.prems have "n \<in> fst ` set (halfedge m)" by simp
  then obtain d where "map_of (halfedge m) n = Some d"
    by (metis domD dom_map_of_conv_image_fst)
  then obtain b where b: "is_vertex_on_boundary m n = Inr b"
    by (simp add: is_vertex_on_boundary_def rbind_def getitem_def)
  with Cons show ?case by simp
qed


lemma find_filter: "find P xs = (case filter P xs of [] \<Rightarrow> None | x # _ \<Rightarrow> Some x)"
  by (induction xs) auto

text \<open>
  What \<^verbatim>\<open>vertex_opposite_vertex(u, v)\<close> computes, case by case, for \<open>u\<close> in the
  neighbour list of \<open>v\<close>. In the boundary case the result is the first neighbour of
  \<open>v\<close>, other than \<open>u\<close>, that is a boundary vertex; the edge to it need not be a
  boundary edge.
\<close>

lemma vertex_opposite_vertex_cases:
  assumes nbrs: "vertex_neighbors m v = Inr ns" and adj: "u \<in> set ns"
    and keys: "\<forall>n\<in>set ns. n \<in> fst ` set (halfedge m)"
  shows "(is_vertex_singular m v = Inr True \<longrightarrow> vertex_opposite_vertex m u v = Inr None)
    \<and> (is_vertex_singular m v = Inr False \<and> is_vertex_on_boundary m v = Inr True
        \<and> is_vertex_on_boundary m u = Inr False
        \<longrightarrow> vertex_opposite_vertex m u v = Inr None)
    \<and> (is_vertex_singular m v = Inr False \<and> is_vertex_on_boundary m v = Inr True
        \<and> is_vertex_on_boundary m u = Inr True
        \<and> (\<exists>n\<in>set ns. n \<noteq> u \<and> is_vertex_on_boundary m n = Inr True)
        \<longrightarrow> (\<exists>w. vertex_opposite_vertex m u v = Inr (Some w)
              \<and> find (\<lambda>n. n \<noteq> u \<and> is_vertex_on_boundary m n = Inr True) ns = Some w
              \<and> w \<in> set ns \<and> w \<noteq> u \<and> is_vertex_on_boundary m w = Inr True))
    \<and> (is_vertex_singular m v = Inr False \<and> is_vertex_on_boundary m v = Inr False
        \<and> vertex_neighbors_ordered m v = Inr os \<and> set os = set ns \<and> length os = 4
        \<longrightarrow> (\<exists>i. index_of os u = Inr i \<and> i < 4
              \<and> vertex_opposite_vertex m u v = Inr (Some (os ! nat ((int i - 2) mod 4)))))"
proof (intro conjI impI)
  assume "is_vertex_singular m v = Inr True"
  then show "vertex_opposite_vertex m u v = Inr None"
    by (simp add: vertex_opposite_vertex_def rbind_def)
next
  assume "is_vertex_singular m v = Inr False \<and> is_vertex_on_boundary m v = Inr True
        \<and> is_vertex_on_boundary m u = Inr False"
  then show "vertex_opposite_vertex m u v = Inr None"
    by (simp add: vertex_opposite_vertex_def rbind_def)
next
  let ?P = "\<lambda>n. n \<noteq> u \<and> is_vertex_on_boundary m n = Inr True"
  assume a: "is_vertex_singular m v = Inr False \<and> is_vertex_on_boundary m v = Inr True
        \<and> is_vertex_on_boundary m u = Inr True
        \<and> (\<exists>n\<in>set ns. n \<noteq> u \<and> is_vertex_on_boundary m n = Inr True)"
  then have "filter ?P ns \<noteq> []" by (auto simp: filter_empty_conv)
  then obtain w ws where f: "filter ?P ns = w # ws" by (cases "filter ?P ns") auto
  then have fnd: "find ?P ns = Some w" by (simp add: find_filter)
  have "w \<in> set (filter ?P ns)" by (simp add: f)
  then have w: "w \<in> set ns \<and> ?P w" by simp
  have "vertex_opposite_vertex m u v = Inr (Some w)"
    using a nbrs other_boundary_nbrs_filter [OF keys, of u] f
    by (simp add: vertex_opposite_vertex_def rbind_def py_nth_def)
  with fnd w show "\<exists>w. vertex_opposite_vertex m u v = Inr (Some w)
              \<and> find ?P ns = Some w
              \<and> w \<in> set ns \<and> w \<noteq> u \<and> is_vertex_on_boundary m w = Inr True"
    by blast
next
  assume a: "is_vertex_singular m v = Inr False \<and> is_vertex_on_boundary m v = Inr False
        \<and> vertex_neighbors_ordered m v = Inr os \<and> set os = set ns \<and> length os = 4"
  with adj have "u \<in> set os" by simp
  from index_of_mem [OF this] obtain i where i: "index_of os u = Inr i" "i < length os" by blast
  with a py_nth_offset [of os i] have "py_nth os (int i - 2) = Inr (os ! nat ((int i - 2) mod 4))"
    by simp
  with a i have "vertex_opposite_vertex m u v = Inr (Some (os ! nat ((int i - 2) mod 4)))"
    by (simp add: vertex_opposite_vertex_def rbind_def)
  with i a show "\<exists>i. index_of os u = Inr i \<and> i < 4
              \<and> vertex_opposite_vertex m u v = Inr (Some (os ! nat ((int i - 2) mod 4)))"
    by auto
qed


text \<open>The 2 by 2 grid of quads on the 3 by 3 vertices 0..8, row by row.\<close>

definition grid22 :: "unit mesh" where
  "grid22 = from_vertices_and_faces [(), (), (), (), (), (), (), (), ()]
                [[0, 1, 4, 3], [1, 2, 5, 4], [3, 4, 7, 6], [4, 5, 8, 7]]"

lemma vertex_opposite_vertex_cases_grid22:
  "(is_vertex_singular grid22 0 = Inr True \<and> vertex_opposite_vertex grid22 1 0 = Inr None)
   \<and> (is_vertex_singular grid22 1 = Inr False \<and> is_vertex_on_boundary grid22 1 = Inr True
       \<and> is_vertex_on_boundary grid22 4 = Inr False \<and> vertex_opposite_vertex grid22 4 1 = Inr None)
   \<and> (is_vertex_on_boundary grid22 0 = Inr True \<and> is_vertex_on_boundary grid22 2 = Inr True
       \<and> vertex_opposite_vertex grid22 0 1 = Inr (Some 2))
   \<and> (is_vertex_singular grid22 4 = Inr False \<and> is_vertex_on_boundary grid22 4 = Inr False
       \<and> vertex_neighbors_ordered grid22 4 = Inr [1, 3, 7, 5]
       \<and> vertex_opposite_vertex grid22 1 4 = Inr (Some 7))"
proof -
  have n0: "vertex_neighbors grid22 0 = Inr [1, 3]" by code_simp
  have n1: "vertex_neighbors grid22 1 = Inr [0, 4, 2]" by code_simp
  have n4: "vertex_neighbors grid22 4 = Inr [1, 3, 5, 7]" by code_simp
  have k0: "\<forall>n\<in>set [1, 3]. n \<in> fst ` set (halfedge grid22)" by code_simp
  have k1: "\<forall>n\<in>set [0, 4, 2]. n \<in> fst ` set (halfedge grid22)" by code_simp
  have k4: "\<forall>n\<in>set [1, 3, 5, 7]. n \<in> fst ` set (halfedge grid22)" by code_simp
  have s0: "is_vertex_singular grid22 0 = Inr True" by code_simp
  have s1: "is_vertex_singular grid22 1 = Inr False" by code_simp
  have s4: "is_vertex_singular grid22 4 = Inr False" by code_simp
  have b0: "is_vertex_on_boundary grid22 0 = Inr True" by code_simp
  have b1: "is_vertex_on_boundary grid22 1 = Inr True" by code_simp
  have b2: "is_vertex_on_boundary grid22 2 = Inr True" by code_simp
  have b4: "is_vertex_on_boundary grid22 4 = Inr False" by code_simp
  have o4: "vertex_neighbors_ordered grid22 4 = Inr [1, 3, 7, 5]" by code_simp
  have A: "vertex_opposite_vertex grid22 1 0 = Inr None"
    using vertex_opposite_vertex_cases [OF n0 _ k0, of 1, THEN conjunct1] s0 by simp
  have B: "vertex_opposite_vertex grid22 4 1 = Inr None"
    using vertex_opposite_vertex_cases [OF n1 _ k1, of 4, THEN conjunct2, THEN conjunct1] s1 b1 b4
    by simp
  have "\<exists>w. vertex_opposite_vertex grid22 0 1 = Inr (Some w)
        \<and> find (\<lambda>n. n \<noteq> 0 \<and> is_vertex_on_boundary grid22 n = Inr True) [0, 4, 2] = Some w
        \<and> w \<in> set [0, 4, 2] \<and> w \<noteq> 0 \<and> is_vertex_on_boundary grid22 w = Inr True"
    using vertex_opposite_vertex_cases [OF n1 _ k1, of 0, THEN conjunct2, THEN conjunct2, THEN conjunct1]
      s1 b1 b0 b2 by simp
  then have C: "vertex_opposite_vertex grid22 0 1 = Inr (Some 2)"
    using b4 by auto
  have se: "set [1, 3, 7, 5] = set [1, 3, 5, 7::nat]" by (simp add: insert_commute)
  have "\<exists>i. index_of [1, 3, 7, 5] 1 = Inr i \<and> i < 4
        \<and> vertex_opposite_vertex grid22 1 4 = Inr (Some ([1, 3, 7, 5] ! nat ((int i - 2) mod 4)))"
    using vertex_opposite_vertex_cases [OF n4 _ k4, of 1 "[1, 3, 7, 5]",
        THEN conjunct2, THEN conjunct2, THEN conjunct2] s4 b4 o4 se by simp
  then have D: "vertex_opposite_vertex grid22 1 4 = Inr (Some 7)"
    by auto
  from A B C D s0 s1 s4 b0 b1 b2 b4 o4 show ?thesis by simp
qed

text \<open>
  C9. Around an interior vertex \<open>v\<close> of degree 4 whose cyclically ordered neighbour list
  holds each of its four neighbours once, \<^verbatim>\<open>vertex_opposite_vertex\<close> applied twice
  returns to the start: \<^verbatim>\<open>vertex_opposite_vertex(vertex_opposite_vertex(u, v), v) == u\<close>
  for every neighbour \<open>u\<close> of \<open>v\<close>.
\<close>

theorem vertex_opposite_vertex_involution:
  assumes nbrs: "vertex_neighbors m v = Inr ns" and deg: "length ns = 4"
    and interior: "is_vertex_on_boundary m v = Inr False" and adj: "u \<in> set ns"
    and ordered: "vertex_neighbors_ordered m v = Inr os"
    and fan: "distinct os" "set os = set ns" "length os = 4"
  shows "\<exists>w. vertex_opposite_vertex m u v = Inr (Some w)
           \<and> vertex_opposite_vertex m w v = Inr (Some u)"
proof -
  have sing: "is_vertex_singular m v = Inr False"
    using nbrs deg interior by (simp add: is_vertex_singular_def vertex_degree_def rbind_def)
  have step: "vertex_opposite_vertex m x v = Inr (Some (os ! nat ((int i - 2) mod 4)))"
    if "index_of os x = Inr i" "i < 4" for x i
    using that sing interior ordered fan(3) py_nth_offset [of os i]
    by (simp add: vertex_opposite_vertex_def rbind_def)
  from adj fan(2) have "u \<in> set os" by simp
  from index_of_mem [OF this] fan(3) obtain i where i: "index_of os u = Inr i" "i < 4" "os ! i = u"
    by auto
  define j where "j = nat ((int i - 2) mod 4)"
  from i(2) have "i = 0 \<or> i = 1 \<or> i = 2 \<or> i = 3" by auto
  then have j: "j < 4" "nat ((int j - 2) mod 4) = i"
    unfolding j_def by auto
  from index_of_nth_distinct [OF fan(1), of j] j(1) fan(3) have "index_of os (os ! j) = Inr j"
    by simp
  from step [OF this j(1)] j(2) i(3) have "vertex_opposite_vertex m (os ! j) v = Inr (Some u)"
    by simp
  moreover from step [OF i(1,2)] have "vertex_opposite_vertex m u v = Inr (Some (os ! j))"
    by (simp add: j_def)
  ultimately show ?thesis by blast
qed


theorem vertex_opposite_vertex_involution_witness:
  "vertex_neighbors grid22 4 = Inr [1, 3, 5, 7]
   \<and> is_vertex_on_boundary grid22 4 = Inr False
   \<and> vertex_neighbors_ordered grid22 4 = Inr [1, 3, 7, 5]
   \<and> vertex_opposite_vertex grid22 1 4 = Inr (Some 7)
   \<and> vertex_opposite_vertex grid22 7 4 = Inr (Some 1)"
proof -
  have n4: "vertex_neighbors grid22 4 = Inr [1, 3, 5, 7]" by code_simp
  have b4: "is_vertex_on_boundary grid22 4 = Inr False" by code_simp
  have o4: "vertex_neighbors_ordered grid22 4 = Inr [1, 3, 7, 5]" by code_simp
  have se: "set [1, 3, 7, 5] = set [1, 3, 5, 7::nat]" by (simp add: insert_commute)
  have v: "vertex_opposite_vertex grid22 1 4 = Inr (Some 7)" by code_simp
  from vertex_opposite_vertex_involution [OF n4 _ b4 _ o4 _ se, of 1]
  have "\<exists>w. vertex_opposite_vertex grid22 1 4 = Inr (Some w)
           \<and> vertex_opposite_vertex grid22 w 4 = Inr (Some 1)"
    by simp
  with v have "vertex_opposite_vertex grid22 7 4 = Inr (Some 1)" by auto
  with n4 b4 o4 v show ?thesis by simp
qed

section \<open>Polyedges of two quads, and the failure of a merge\<close>

text \<open>Two quads side by side on the vertices 0 1 2 over 3 4 5.\<close>

definition two_quads :: "unit mesh" where
  "two_quads = from_vertices_and_faces [(), (), (), (), (), ()] [[0, 1, 4, 3], [1, 2, 5, 4]]"

text \<open>
  How often an edge is covered, in either direction, by a pair of consecutive vertices
  of the polyedges.
\<close>

definition cover_count :: "vkey list list \<Rightarrow> edge \<Rightarrow> nat" where
  "cover_count pes e =
     length (filter (\<lambda>p. p = e \<or> p = (snd e, fst e)) (concat (map pairwise pes)))"

text \<open>
  C2, at the mesh of two quads: \<^verbatim>\<open>polyedges()\<close> returns five polyedges that cover the
  edge (0, 1) three times and the edge (1, 4) twice. Vertex 1 is a regular boundary
  vertex whose three neighbours are all on the boundary, so that the walk along the
  interior edge (4, 1) does not stop at the boundary but goes on to vertex 0.
\<close>

theorem polyedges_two_quads_overlap:
  "is_quadmesh two_quads
   \<and> edges two_quads = [(0, 1), (0, 3), (1, 4), (1, 2), (2, 5), (3, 4), (4, 5)]
   \<and> polyedges two_quads = Inr [[0, 1, 4, 5], [0, 1, 4, 3], [5, 2], [0, 1, 2], [3, 0]]
   \<and> cover_count [[0, 1, 4, 5], [0, 1, 4, 3], [5, 2], [0, 1, 2], [3, 0]] (0, 1) = 3
   \<and> cover_count [[0, 1, 4, 5], [0, 1, 4, 3], [5, 2], [0, 1, 2], [3, 0]] (1, 4) = 2
   \<and> vertex_opposite_vertex two_quads 4 1 = Inr (Some 0)"
  by code_simp

text \<open>
  C5, at the mesh of two quads. Vertex 4 is a regular boundary vertex (degree 3): its
  edges to 3 and to 5 are boundary edges, its edge to 1 is interior. Coming from the
  boundary neighbour 3, \<^verbatim>\<open>vertex_opposite_vertex\<close> returns 1, across the interior
  edge, where the other boundary neighbour of 4 is 5; coming from 5 it returns 1 as well.
\<close>

theorem vertex_opposite_vertex_two_quads:
  "is_quadmesh two_quads
   \<and> vertex_neighbors two_quads 4 = Inr [1, 3, 5]
   \<and> is_vertex_singular two_quads 4 = Inr False
   \<and> is_vertex_on_boundary two_quads 4 = Inr True
   \<and> is_vertex_on_boundary two_quads 3 = Inr True
   \<and> is_edge_on_boundary two_quads 3 4 = Inr True
   \<and> is_edge_on_boundary two_quads 4 5 = Inr True
   \<and> is_edge_on_boundary two_quads 4 1 = Inr False
   \<and> vertex_opposite_vertex two_quads 3 4 = Inr (Some 1)
   \<and> vertex_opposite_vertex two_quads 5 4 = Inr (Some 1)"
  by code_simp

text \<open>The checks of \<^verbatim>\<open>face_strips_merge\<close> that come before the check loop.\<close>

lemma face_strips_merge_boundary:
  assumes "is_edge_on_boundary m u v = Inr True"
  shows "face_strips_merge polylines m u v = Inr (None, m)"
  using assms by (simp add: face_strips_merge_def rbind_def)

lemma face_strips_merge_boundary_grid22:
  "is_edge_on_boundary grid22 0 1 = Inr True
   \<and> face_strips_merge [[1, 4, 7], [3, 4, 5]] grid22 0 1 = Inr (None, grid22)"
proof -
  have a: "is_edge_on_boundary grid22 0 1 = Inr True" by code_simp
  from a face_strips_merge_boundary [OF a] show ?thesis by simp
qed

text \<open>The check loop raises on the first vertex of the polyedge that is a vertex of the mesh.\<close>

lemma any_singular_raises:
  assumes "x \<in> fst ` set (halfedge m)"
  shows "any_singular m (x # pe) = Inl AttributeError"
proof -
  from assms obtain d where "map_of (halfedge m) x = Some d"
    by (metis domD dom_map_of_conv_image_fst)
  then obtain b where "is_vertex_on_boundary m x = Inr b"
    by (simp add: is_vertex_on_boundary_def rbind_def getitem_def)
  then show ?thesis by (simp add: vertex_neighbours_def)
qed



section \<open>Boundary polylines: termination and manifold boundaries\<close>

lemma boundary_loop_steps: "snd (boundary_loop m vs bs n) \<le> n + length vs"
proof (induction m vs bs n rule: boundary_loop.induct)
  case (1 m vs bs n)
  show ?case
  proof (cases "vs = []")
    case True
    then show ?thesis by (simp add: boundary_loop.simps)
  next
    case False
    then have len: "length (butlast vs) + 1 = length vs" by (cases vs rule: rev_cases) simp_all
    obtain r k where t: "trace_boundary m (butlast vs) [last vs] n = (r, k)" by (cases "trace_boundary m (butlast vs) [last vs] n")
    show ?thesis
    proof (cases r)
      case (Inl e)
      with t trace_boundary_steps [OF t] False len show ?thesis
        by (simp add: boundary_loop.simps)
    next
      case (Inr p)
      obtain vs' b where p: "p = (vs', b)" by (cases p)
      from trace_boundary_steps [OF t] Inr p have eq: "k + length vs' = n + length (butlast vs) + 1"
        by simp
      from "1.IH" [OF False t [symmetric] Inr p [symmetric]]
      have "snd (boundary_loop m vs' (bs @ [b]) k) \<le> k + length vs'" by simp
      with t Inr p False eq len show ?thesis by (simp add: boundary_loop.simps)
    qed
  qed
qed

lemma edges_seen_cover:
  "(u, v) \<in> set ps \<Longrightarrow>
     (u, v) \<in> set seen \<or> (v, u) \<in> set seen
     \<or> (u, v) \<in> set (edges_seen seen ps) \<or> (v, u) \<in> set (edges_seen seen ps)"
proof (induction seen ps rule: edges_seen.induct)
  case (1 seen)
  then show ?case by simp
next
  case (2 seen a b ps)
  show ?case
  proof (cases "(u, v) = (a, b)")
    case True
    then show ?thesis by auto
  next
    case False
    with "2.prems" have mem: "(u, v) \<in> set ps" by auto
    show ?thesis
    proof (cases "(a, b) \<in> set seen \<or> (b, a) \<in> set seen")
      case True
      with "2.IH"(1) [OF True mem] show ?thesis by simp
    next
      case nseen: False
      with "2.IH"(2) [OF nseen mem] show ?thesis by auto
    qed
  qed
qed

lemma none_halfedges_pairs: "set (none_halfedges m) \<subseteq> set (halfedge_pairs m)"
  by (auto simp: none_halfedges_def halfedge_pairs_def)

lemma boundary_vertices_ends:
  "set (boundary_vertices m) \<subseteq> fst ` set (edges m) \<union> snd ` set (edges m)"
proof
  fix x assume "x \<in> set (boundary_vertices m)"
  then obtain u v where uv: "(u, v) \<in> set (none_halfedges m)" "x = u \<or> x = v"
    by (auto simp: boundary_vertices_def)
  with none_halfedges_pairs have "(u, v) \<in> set (halfedge_pairs m)" by blast
  from edges_seen_cover [OF this, of "[]"] have "(u, v) \<in> set (edges m) \<or> (v, u) \<in> set (edges m)"
    by (simp add: edges_def)
  with uv(2) show "x \<in> fst ` set (edges m) \<union> snd ` set (edges m)" by force
qed

lemma boundary_vertices_count:
  assumes "distinct vs" "set vs = set (boundary_vertices m)"
  shows "length vs \<le> 2 * number_of_edges m"
proof -
  from assms(1) have "length vs = card (set vs)" by (simp add: distinct_card)
  also from assms(2) boundary_vertices_ends
  have "\<dots> \<le> card (fst ` set (edges m) \<union> snd ` set (edges m))"
    by (intro card_mono) auto
  also have "\<dots> \<le> card (fst ` set (edges m)) + card (snd ` set (edges m))"
    by (rule card_Un_le)
  also have "\<dots> \<le> card (set (edges m)) + card (set (edges m))"
    by (intro add_mono card_image_le) simp_all
  also have "\<dots> \<le> 2 * length (edges m)"
    using card_length [of "edges m"] by simp
  finally show ?thesis by (simp add: number_of_edges_def)
qed


text \<open>
  A mesh whose boundary is a manifold: the keys of the half-edge dictionary are distinct,
  and every vertex has at most one outgoing and at most one incoming half-edge without a
  face, an incoming one only when it has an outgoing one.
\<close>

definition manifold_boundary :: "'c mesh \<Rightarrow> bool" where
  "manifold_boundary m \<longleftrightarrow>
     distinct (map fst (halfedge m))
     \<and> distinct (map fst (none_halfedges m))
     \<and> distinct (map snd (none_halfedges m))
     \<and> set (map snd (none_halfedges m)) \<subseteq> set (map fst (none_halfedges m))"

lemma none_halfedges_set:
  "set (none_halfedges m) = (\<Union>x\<in>set (halfedge m). (\<lambda>p. (fst x, fst p)) ` {p \<in> set (snd x). snd p = None})"
  by (simp add: none_halfedges_def case_prod_beta)

lemma none_halfedges_iff:
  "(u, v) \<in> set (none_halfedges m) \<longleftrightarrow>
     (\<exists>nbrs. (u, nbrs) \<in> set (halfedge m) \<and> (v, None) \<in> set nbrs)"
proof
  assume "(u, v) \<in> set (none_halfedges m)"
  then obtain x p where x: "x \<in> set (halfedge m)" "p \<in> set (snd x)" "snd p = None"
    "(u, v) = (fst x, fst p)"
    unfolding none_halfedges_set by blast
  from x(3,4) have "p = (v, None)" by (metis prod.collapse prod.inject)
  moreover from x(4) have "x = (u, snd x)" by (metis prod.collapse prod.inject)
  ultimately have "(u, snd x) \<in> set (halfedge m) \<and> (v, None) \<in> set (snd x)"
    using x(1,2) by metis
  then show "\<exists>nbrs. (u, nbrs) \<in> set (halfedge m) \<and> (v, None) \<in> set nbrs" ..
next
  assume "\<exists>nbrs. (u, nbrs) \<in> set (halfedge m) \<and> (v, None) \<in> set nbrs"
  then obtain nbrs where n: "(u, nbrs) \<in> set (halfedge m)" "(v, None) \<in> set nbrs" by blast
  have "(u, v) \<in> (\<lambda>p. (fst (u, nbrs), fst p)) ` {p \<in> set (snd (u, nbrs)). snd p = None}"
    using n(2) by (intro image_eqI [of _ _ "(v, None)"]) simp_all
  with n(1) show "(u, v) \<in> set (none_halfedges m)"
    unfolding none_halfedges_set by blast
qed

lemma distinct_fst_unique: "distinct (map fst xs) \<Longrightarrow> (a, b) \<in> set xs \<Longrightarrow> (a, c) \<in> set xs \<Longrightarrow> b = c"
  by (rule eq_key_imp_eq_value)

lemma distinct_snd_unique:
  assumes "distinct (map snd xs)" "(a, c) \<in> set xs" "(b, c) \<in> set xs"
  shows "a = b"
proof -
  from assms(1) have "inj_on snd (set xs)" by (simp add: distinct_map)
  from inj_onD [OF this, of "(a, c)" "(b, c)"] assms(2,3) show ?thesis by simp
qed

lemma extend_boundary_manifold:
  assumes man: "manifold_boundary m" and e: "(u, v) \<in> set (none_halfedges m)"
    and b: "last b = u"
  shows "extend_boundary m b = Inr (b @ [v])"
proof -
  from e obtain nbrs where nbrs: "(u, nbrs) \<in> set (halfedge m)" "(v, None) \<in> set nbrs"
    by (auto simp: none_halfedges_iff)
  from man have d: "distinct (map fst (halfedge m))" by (simp add: manifold_boundary_def)
  with nbrs(1) have look: "map_of (halfedge m) u = Some nbrs" by simp
  from nbrs(2) have "\<exists>p\<in>set nbrs. snd p = None" by force
  then obtain p where p: "find (\<lambda>p. snd p = None) nbrs = Some p"
    by (cases "find (\<lambda>p. snd p = None) nbrs") (auto simp: find_None_iff)
  then have "p \<in> set nbrs" "snd p = None"
    by (auto simp: find_Some_iff)
  then have "(fst p, None) \<in> set nbrs" by (metis prod.collapse)
  with nbrs(1) have "(u, fst p) \<in> set (none_halfedges m)" by (auto simp: none_halfedges_iff)
  with e man have "fst p = v"
    by (auto simp: manifold_boundary_def dest: distinct_fst_unique)
  with look p b show ?thesis by (simp add: extend_boundary_def rbind_def getitem_def)
qed

lemma pairwise_pred: "y \<in> set (tl b) \<Longrightarrow> \<exists>x\<in>set (butlast b). (x, y) \<in> set (pairwise b)"
proof (induction b rule: pairwise.induct)
  case (1 x z xs)
  then show ?case by (cases "y = z") auto
qed simp_all

lemma pairwise_snoc: "b \<noteq> [] \<Longrightarrow> pairwise (b @ [v]) = pairwise b @ [(last b, v)]"
  by (induction b rule: pairwise.induct) simp_all

lemma last_notin_butlast: "distinct b \<Longrightarrow> b \<noteq> [] \<Longrightarrow> last b \<notin> set (butlast b)"
proof -
  assume d: "distinct b" and ne: "b \<noteq> []"
  then have "distinct (butlast b @ [last b])" by simp
  then show ?thesis by simp
qed

lemma in_tl_if: "b \<noteq> [] \<Longrightarrow> y \<in> set b \<Longrightarrow> y \<noteq> hd b \<Longrightarrow> y \<in> set (tl b)"
  by (cases b) auto

lemma trace_boundary_manifold:
  "manifold_boundary m \<Longrightarrow> b \<noteq> [] \<Longrightarrow> distinct b \<Longrightarrow> distinct vs \<Longrightarrow> set vs \<inter> set b = {}
    \<Longrightarrow> set (pairwise b) \<subseteq> set (none_halfedges m)
    \<Longrightarrow> set vs \<union> set b \<subseteq> fst ` set (none_halfedges m)
    \<Longrightarrow> (\<forall>x y. (x, y) \<in> set (none_halfedges m) \<longrightarrow> x \<in> set vs \<union> set b \<longrightarrow> y \<in> set vs \<union> set b)
    \<Longrightarrow> \<exists>vs' c k'. trace_boundary m vs b k = (Inr (vs', b @ c @ [hd b]), k')
          \<and> distinct (b @ c)
          \<and> set (pairwise (b @ c @ [hd b])) \<subseteq> set (none_halfedges m)
          \<and> distinct vs' \<and> set vs' \<inter> set (b @ c) = {}
          \<and> set vs' \<union> set (b @ c) = set vs \<union> set b
          \<and> (\<forall>x y. (x, y) \<in> set (none_halfedges m) \<longrightarrow> x \<in> set vs' \<longrightarrow> y \<in> set vs')"
proof (induction m vs b k rule: trace_boundary.induct)
  case (1 m vs b k)
  let ?E = "set (none_halfedges m)"
  note man = "1.prems"(1)
    and ne = "1.prems"(2) and db = "1.prems"(3) and dvs = "1.prems"(4) and disj = "1.prems"(5)
    and chain = "1.prems"(6) and dom = "1.prems"(7) and closed = "1.prems"(8)
  from man have ds: "distinct (map snd (none_halfedges m))" by (simp add: manifold_boundary_def)
  have inj: "a = a'" if "(a, c) \<in> ?E" "(a', c) \<in> ?E" for a a' c
    using distinct_snd_unique [OF ds that] .
  from ne have ub: "last b \<in> set b" by simp
  with dom have "last b \<in> fst ` ?E" by blast
  then obtain v where uv: "(last b, v) \<in> ?E" by force
  from extend_boundary_manifold [OF man uv refl] have ext: "extend_boundary m b = Inr (b @ [v])" .
  from ne have hl: "hd (b @ [v]) = hd b" "last (b @ [v]) = v" by simp_all
  have notin_tl: "v \<notin> set (tl b)"
  proof
    assume "v \<in> set (tl b)"
    from pairwise_pred [OF this] obtain x where x: "x \<in> set (butlast b)" "(x, v) \<in> set (pairwise b)"
      by blast
    with chain have "(x, v) \<in> ?E" by blast
    from inj [OF this uv] x(1) last_notin_butlast [OF db ne] show False by simp
  qed
  show ?case
  proof (cases "v = hd b")
    case True
    have tr: "trace_boundary m vs b k = (Inr (vs, b @ [] @ [hd b]), Suc k)"
      using ext hl True by (simp add: trace_boundary.simps)
    have ch: "set (pairwise (b @ [] @ [hd b])) \<subseteq> ?E"
      using chain uv True ne by (simp add: pairwise_snoc)
    have cl: "\<forall>x y. (x, y) \<in> ?E \<longrightarrow> x \<in> set vs \<longrightarrow> y \<in> set vs"
    proof (intro allI impI)
      fix x y assume xy: "(x, y) \<in> ?E" and x: "x \<in> set vs"
      with closed have "y \<in> set vs \<union> set b" by blast
      moreover have "y \<notin> set b"
      proof
        assume yb: "y \<in> set b"
        show False
        proof (cases "y = hd b")
          case yh: True
          with xy True uv inj have "x = last b" by blast
          with x ub disj show False by blast
        next
          case False
          from in_tl_if [OF ne yb False] have "y \<in> set (tl b)" .
          from pairwise_pred [OF this] obtain x' where x': "x' \<in> set (butlast b)"
            "(x', y) \<in> set (pairwise b)" by blast
          with chain have "(x', y) \<in> ?E" by blast
          from inj [OF this xy] x'(1) have "x \<in> set b" by (auto dest: in_set_butlastD)
          with x disj show False by blast
        qed
      qed
      ultimately show "y \<in> set vs" by blast
    qed
    from tr ch cl db dvs disj show ?thesis
      by (intro exI [of _ vs] exI [of _ "[]"] exI [of _ "Suc k"]) simp
  next
    case False
    from closed uv ub have "v \<in> set vs \<union> set b" by blast
    moreover have vb: "v \<notin> set b"
      using in_tl_if [OF ne _ False] notin_tl by blast
    ultimately have vvs: "v \<in> set vs" by blast
    have tr: "trace_boundary m vs b k = trace_boundary m (remove1 v vs) (b @ [v]) (Suc k)"
      using ext hl False vvs by (subst trace_boundary.simps) simp
    have svs: "set (remove1 v vs) = set vs - {v}" using dvs by simp
    have p1: "b @ [v] \<noteq> []" by simp
    have p2: "distinct (b @ [v])" using db vb by simp
    have p3: "distinct (remove1 v vs)" using dvs by simp
    have p4: "set (remove1 v vs) \<inter> set (b @ [v]) = {}" using svs disj by auto
    have p5: "set (pairwise (b @ [v])) \<subseteq> ?E" using chain uv ne by (simp add: pairwise_snoc)
    have un: "set (remove1 v vs) \<union> set (b @ [v]) = set vs \<union> set b" using svs vvs by auto
    have p6: "set (remove1 v vs) \<union> set (b @ [v]) \<subseteq> fst ` ?E" using dom un by simp
    have p7: "\<forall>x y. (x, y) \<in> ?E \<longrightarrow> x \<in> set (remove1 v vs) \<union> set (b @ [v])
                \<longrightarrow> y \<in> set (remove1 v vs) \<union> set (b @ [v])"
      using closed unfolding un .
    have e2: "extend_boundary m b = Inr (b @ [v])" by (rule ext)
    have h2: "hd (b @ [v]) \<noteq> last (b @ [v])" using hl False by simp
    have m2: "last (b @ [v]) \<in> set vs" using vvs by simp
    have lv: "last (b @ [v]) = v" by simp
    have "\<exists>vs' c k'.
      trace_boundary m (remove1 v vs) (b @ [v]) (Suc k) = (Inr (vs', (b @ [v]) @ c @ [hd b]), k')
      \<and> distinct ((b @ [v]) @ c)
      \<and> set (pairwise ((b @ [v]) @ c @ [hd b])) \<subseteq> ?E
      \<and> distinct vs' \<and> set vs' \<inter> set ((b @ [v]) @ c) = {}
      \<and> set vs' \<union> set ((b @ [v]) @ c) = set (remove1 v vs) \<union> set (b @ [v])
      \<and> (\<forall>x y. (x, y) \<in> ?E \<longrightarrow> x \<in> set vs' \<longrightarrow> y \<in> set vs')"
      using "1.IH" [OF e2 h2 m2 man p1 p2] p3 p4 p5 p6 p7 unfolding lv hl(1) by blast
    then obtain vs' c k' where r:
      "trace_boundary m (remove1 v vs) (b @ [v]) (Suc k) = (Inr (vs', (b @ [v]) @ c @ [hd b]), k')"
      "distinct ((b @ [v]) @ c)"
      "set (pairwise ((b @ [v]) @ c @ [hd b])) \<subseteq> ?E"
      "distinct vs'" "set vs' \<inter> set ((b @ [v]) @ c) = {}"
      "set vs' \<union> set ((b @ [v]) @ c) = set (remove1 v vs) \<union> set (b @ [v])"
      "\<forall>x y. (x, y) \<in> ?E \<longrightarrow> x \<in> set vs' \<longrightarrow> y \<in> set vs'"
      by blast
    show ?thesis
      apply (rule exI [of _ vs'])
      apply (rule exI [of _ "v # c"])
      apply (rule exI [of _ k'])
      using r tr un hl by simp
  qed
qed

lemma boundary_vertices_set:
  "set (boundary_vertices m) = fst ` set (none_halfedges m) \<union> snd ` set (none_halfedges m)"
proof -
  have "set (concat (map (\<lambda>(u, v). [u, v]) es)) = fst ` set es \<union> snd ` set es" for es :: "edge list"
    by (induction es) auto
  then show ?thesis by (simp add: boundary_vertices_def)
qed

lemma boundary_loop_manifold:
  "manifold_boundary m \<Longrightarrow> distinct vs \<Longrightarrow> set vs \<subseteq> fst ` set (none_halfedges m)
   \<Longrightarrow> (\<forall>x y. (x, y) \<in> set (none_halfedges m) \<longrightarrow> x \<in> set vs \<longrightarrow> y \<in> set vs)
   \<Longrightarrow> \<exists>bs'. fst (boundary_loop m vs bs k) = Inr (bs @ bs')
         \<and> (\<forall>b\<in>set bs'. 2 \<le> length b \<and> hd b = last b
                \<and> set (pairwise b) \<subseteq> set (none_halfedges m))
         \<and> distinct (concat (map butlast bs'))
         \<and> set (concat (map butlast bs')) = set vs"
proof (induction m vs bs k rule: boundary_loop.induct)
  case (1 m vs bs k)
  let ?E = "set (none_halfedges m)"
  note man = "1.prems"(1) and dvs = "1.prems"(2) and dom = "1.prems"(3) and closed = "1.prems"(4)
  show ?case
  proof (cases "vs = []")
    case True
    then have "fst (boundary_loop m vs bs k) = Inr (bs @ [])" by (simp add: boundary_loop.simps)
    with True show ?thesis by (intro exI [of _ "[]"]) simp
  next
    case ne: False
    let ?s = "last vs" and ?vs0 = "butlast vs"
    from dvs have d0: "distinct ?vs0" by (rule distinct_butlast)
    from last_notin_butlast [OF dvs ne] have s0: "?s \<notin> set ?vs0" .
    have "set (?vs0 @ [?s]) = set vs" using append_butlast_last_id [OF ne] by (rule arg_cong)
    then have un: "set ?vs0 \<union> set [?s] = set vs" by (simp only: set_append)
    have q1: "[?s] \<noteq> []" and q2: "distinct [?s]" by simp_all
    have q4: "set ?vs0 \<inter> set [?s] = {}" using s0 by simp
    have q5: "set (pairwise [?s]) \<subseteq> ?E" by simp
    have q6: "set ?vs0 \<union> set [?s] \<subseteq> fst ` ?E" using dom un by simp
    have q7: "\<forall>x y. (x, y) \<in> ?E \<longrightarrow> x \<in> set ?vs0 \<union> set [?s] \<longrightarrow> y \<in> set ?vs0 \<union> set [?s]"
      using closed unfolding un .
    from trace_boundary_manifold [OF man q1 q2 d0 q4 q5 q6 q7, of k]
    obtain vs' c k' where r:
      "trace_boundary m ?vs0 [?s] k = (Inr (vs', [?s] @ c @ [hd [?s]]), k')"
      "distinct ([?s] @ c)"
      "set (pairwise ([?s] @ c @ [hd [?s]])) \<subseteq> ?E"
      "distinct vs'" "set vs' \<inter> set ([?s] @ c) = {}"
      "set vs' \<union> set ([?s] @ c) = set ?vs0 \<union> set [?s]"
      "\<forall>x y. (x, y) \<in> ?E \<longrightarrow> x \<in> set vs' \<longrightarrow> y \<in> set vs'"
      by blast
    let ?b = "[?s] @ c @ [hd [?s]]"
    from r(6) un dom have dom': "set vs' \<subseteq> fst ` ?E" by blast
    from "1.IH" [OF ne r(1) [symmetric] refl refl man r(4) dom' r(7)]
    obtain bs'' where rec: "fst (boundary_loop m vs' (bs @ [?b]) k') = Inr ((bs @ [?b]) @ bs'')"
      "\<forall>b\<in>set bs''. 2 \<le> length b \<and> hd b = last b \<and> set (pairwise b) \<subseteq> ?E"
      "distinct (concat (map butlast bs''))"
      "set (concat (map butlast bs'')) = set vs'"
      by blast
    have step: "boundary_loop m vs bs k = boundary_loop m vs' (bs @ [?b]) k'"
      using ne r(1) by (subst boundary_loop.simps) simp
    have bl: "butlast ?b = ?s # c" by (simp add: butlast_append)
    have g1: "fst (boundary_loop m vs bs k) = Inr (bs @ (?b # bs''))"
      using step rec(1) by simp
    have b2: "2 \<le> length ?b \<and> hd ?b = last ?b \<and> set (pairwise ?b) \<subseteq> ?E"
      using r(3) by simp
    have g2: "\<forall>b\<in>set (?b # bs''). 2 \<le> length b \<and> hd b = last b \<and> set (pairwise b) \<subseteq> ?E"
      using rec(2) b2 by (simp only: list.set ball_simps)
    have cc: "concat (map butlast (?b # bs'')) = (?s # c) @ concat (map butlast bs'')"
      by (simp only: list.map concat.simps bl)
    have r2: "distinct (?s # c)" using r(2) by simp
    have r5: "set (?s # c) \<inter> set vs' = {}" using r(5) by (simp add: Int_commute)
    have r6: "set (?s # c) \<union> set vs' = set vs" using r(6) un by (simp add: Un_commute)
    have g3: "distinct (concat (map butlast (?b # bs'')))"
      unfolding cc distinct_append using r2 rec(3) r5 rec(4) by (simp only: simp_thms)
    have g4: "set (concat (map butlast (?b # bs''))) = set vs"
      unfolding cc set_append using r6 rec(4) by (simp only:)
    from g1 g2 g3 g4 show ?thesis by (intro exI [of _ "?b # bs''"]) blast
  qed
qed

text \<open>
  C8. For every mesh, well formed or not, and every order \<open>vs\<close> in which the set of
  boundary vertices is listed, the loops of \<^verbatim>\<open>mesh_polylines_boundary\<close> end (the
  functions are total) after at most \<open>length vs\<close> passes through the body of
  \<^verbatim>\<open>while 1\<close>, whether they return or raise, and that number is at most twice the
  number of edges. On a mesh with a manifold boundary the function returns polylines
  that are closed (first vertex equal to last), follow the half-edges without a face,
  are pairwise disjoint apart from the repeated closing vertex, and together cover
  exactly the boundary vertices: one closed polyline for each boundary component.
\<close>

theorem mesh_polylines_boundary_bounded:
  assumes "distinct vs" and "set vs = set (boundary_vertices m)"
  shows "snd (boundary_loop m vs [] 0) \<le> length vs
    \<and> length vs \<le> 2 * number_of_edges m
    \<and> (manifold_boundary m \<longrightarrow>
         (\<exists>bs. fst (boundary_loop m vs [] 0) = Inr bs
            \<and> (\<forall>b\<in>set bs. 2 \<le> length b \<and> hd b = last b
                   \<and> set (pairwise b) \<subseteq> set (none_halfedges m))
            \<and> distinct (concat (map butlast bs))
            \<and> set (concat (map butlast bs)) = set (boundary_vertices m)))"
proof (intro conjI impI)
  show "snd (boundary_loop m vs [] 0) \<le> length vs"
    using boundary_loop_steps [of m vs "[]" 0] by simp
  show "length vs \<le> 2 * number_of_edges m"
    using assms by (rule boundary_vertices_count)
next
  let ?E = "set (none_halfedges m)"
  assume man: "manifold_boundary m"
  then have sub: "snd ` ?E \<subseteq> fst ` ?E" by (simp add: manifold_boundary_def)
  with assms(2) have dom: "set vs = fst ` ?E" by (auto simp: boundary_vertices_set)
  then have dom': "set vs \<subseteq> fst ` ?E" by simp
  have closed: "\<forall>x y. (x, y) \<in> ?E \<longrightarrow> x \<in> set vs \<longrightarrow> y \<in> set vs"
  proof (intro allI impI)
    fix x y assume "(x, y) \<in> ?E"
    then have "y \<in> snd ` ?E" by force
    with sub dom show "y \<in> set vs" by blast
  qed
  from boundary_loop_manifold [OF man assms(1) dom' closed, of "[]" 0] assms(2)
  show "\<exists>bs. fst (boundary_loop m vs [] 0) = Inr bs
            \<and> (\<forall>b\<in>set bs. 2 \<le> length b \<and> hd b = last b
                   \<and> set (pairwise b) \<subseteq> set (none_halfedges m))
            \<and> distinct (concat (map butlast bs))
            \<and> set (concat (map butlast bs)) = set (boundary_vertices m)"
    by simp
qed

theorem mesh_polylines_boundary_bounded_witness:
  "distinct (boundary_vertices grid22) \<and> manifold_boundary grid22
   \<and> snd (boundary_loop grid22 (boundary_vertices grid22) [] 0) \<le> length (boundary_vertices grid22)
   \<and> length (boundary_vertices grid22) \<le> 2 * number_of_edges grid22
   \<and> mesh_polylines_boundary grid22 = Inr [[8, 5, 2, 1, 0, 3, 6, 7, 8]]
   \<and> (\<exists>bs. fst (boundary_loop grid22 (boundary_vertices grid22) [] 0) = Inr bs
          \<and> (\<forall>b\<in>set bs. 2 \<le> length b \<and> hd b = last b
                 \<and> set (pairwise b) \<subseteq> set (none_halfedges grid22))
          \<and> distinct (concat (map butlast bs))
          \<and> set (concat (map butlast bs)) = set (boundary_vertices grid22))"
proof -
  have d: "distinct (boundary_vertices grid22)" by code_simp
  have man: "manifold_boundary grid22" by code_simp
  have ev: "mesh_polylines_boundary grid22 = Inr [[8, 5, 2, 1, 0, 3, 6, 7, 8]]" by code_simp
  from mesh_polylines_boundary_bounded [OF d refl] man d ev show ?thesis by blast
qed

section \<open>Export and rebuild\<close>























































end
